theory Spec2Isabelle
  imports Main "HOL-Library.Log_Nat"
begin

unbundle bit_operations_syntax

section \<open>Python values, exceptions and the store\<close>

text \<open>
  The example feedback functions of \<^verbatim>\<open>example_feedback_functions.py\<close> receive a Python
  list object. A list object lives in the store at an address; a function call is a
  computation that takes the store and returns either the exception it raised or its
  value, together with the store it leaves behind.
\<close>

datatype error = ValueError | IndexError | ZeroDivisionError | OverflowError

type_synonym addr = nat

type_synonym heap = "addr \<Rightarrow> int list"

type_synonym 'a py = "heap \<Rightarrow> (error + 'a) \<times> heap"

definition py_return :: "'a \<Rightarrow> 'a py" where
  "py_return v h = (Inr v, h)"

definition py_raise :: "error \<Rightarrow> 'a py" where
  "py_raise e h = (Inl e, h)"

text \<open>Sequencing: an exception of the first computation skips the rest.\<close>

definition py_bind :: "'a py \<Rightarrow> ('a \<Rightarrow> 'b py) \<Rightarrow> 'b py" where
  "py_bind m k h = (case m h of (Inl e, h') \<Rightarrow> (Inl e, h') | (Inr v, h') \<Rightarrow> k v h')"

text \<open>A pure computation that may raise, run inside a store computation.\<close>

definition py_lift :: "error + 'a \<Rightarrow> 'a py" where
  "py_lift r h = (r, h)"

text \<open>\<^verbatim>\<open>len(state)\<close>\<close>

definition py_len :: "addr \<Rightarrow> nat py" where
  "py_len a h = (Inr (length (h a)), h)"

text \<open>
  \<^verbatim>\<open>state[i]\<close> for an index that is not negative (every index of the source is a
  literal from 0 upwards): IndexError past the end.
\<close>

definition py_getitem :: "addr \<Rightarrow> nat \<Rightarrow> int py" where
  "py_getitem a i h = (if i < length (h a) then (Inr (h a ! i), h) else (Inl IndexError, h))"

text \<open>\<^verbatim>\<open>sum(state)\<close>: the elements added up from 0, left to right.\<close>

definition py_sum :: "addr \<Rightarrow> int py" where
  "py_sum a h = (Inr (foldl (+) 0 (h a)), h)"

section \<open>Binary64 floats, as far as the threshold function needs them\<close>

text \<open>
  A finite double is \<open>mantissa * 2 ^ exponent\<close>. Python's true division of two integers
  gives the double nearest to the exact quotient, ties to the even mantissa; it raises
  ZeroDivisionError for a zero divisor and OverflowError where the quotient is beyond the
  largest double.
\<close>

datatype float64 = Float64 (mantissa: int) (exponent: int)

text \<open>The integer nearest to \<open>a / b\<close> for \<open>0 < b\<close>, a tie going to the even one.\<close>

definition round_half_even :: "int \<Rightarrow> int \<Rightarrow> int" where
  "round_half_even a b =
     (let q = a div b; r = a mod b
      in if 2 * r < b then q else if b < 2 * r then q + 1 else if even q then q else q + 1)"

text \<open>For \<open>0 < x\<close> and \<open>0 < y\<close>: the \<open>e\<close> with \<open>2 ^ e \<le> x / y < 2 ^ (e + 1)\<close>.\<close>

definition floor_log2_quot :: "int \<Rightarrow> int \<Rightarrow> int" where
  "floor_log2_quot x y =
     (let d = bitlen x - bitlen y
      in if (if 0 \<le> d then y * 2 ^ nat d \<le> x else y \<le> x * 2 ^ nat (- d)) then d else d - 1)"

definition true_div :: "int \<Rightarrow> int \<Rightarrow> error + float64" where
  "true_div a b =
     (if b = 0 then Inl ZeroDivisionError
      else if a = 0 then Inr (Float64 0 0)
      else
        let x = (if b < 0 then - a else a);
            y = \<bar>b\<bar>;
            e = floor_log2_quot \<bar>x\<bar> y;
            q = max e (- 1022) - 52;
            m = (if q \<le> 0 then round_half_even (x * 2 ^ nat (- q)) y
                 else round_half_even x (y * 2 ^ nat q))
        in if 971 < q \<or> (q = 971 \<and> \<bar>m\<bar> = 2 ^ 53) then Inl OverflowError
           else Inr (Float64 m q))"

text \<open>\<open>a <= b\<close> on doubles: both are brought to the smaller exponent.\<close>

definition float_le :: "float64 \<Rightarrow> float64 \<Rightarrow> bool" where
  "float_le a b =
     (let e = min (exponent a) (exponent b)
      in mantissa a * 2 ^ nat (exponent a - e) \<le> mantissa b * 2 ^ nat (exponent b - e))"

text \<open>The literal \<^verbatim>\<open>0.7\<close>: the double nearest to 7/10, \<^verbatim>\<open>0x1.6666666666666p-1\<close>.\<close>

definition float_0_7 :: float64 where
  "float_0_7 = Float64 6305039478318694 (- 53)"

section \<open>The example feedback functions\<close>

text \<open>
  \<^verbatim>\<open>grain_feedback\<close>:
  x[0] ^ x[1] ^ x[3] ^ x[4] ^ (x[1] & x[2]) ^ (x[2] & x[3]) ^ (x[3] & x[4]), mod 2.
\<close>

definition grain_feedback :: "addr \<Rightarrow> int py" where
  "grain_feedback state =
     py_bind (py_len state) (\<lambda>n.
       if n < 5 then py_raise ValueError
       else
         py_bind (py_getitem state 0) (\<lambda>x0.
         py_bind (py_getitem state 1) (\<lambda>x1.
         py_bind (py_getitem state 3) (\<lambda>x3.
         py_bind (py_getitem state 4) (\<lambda>x4.
         let linear = ((x0 XOR x1) XOR x3) XOR x4 in
         py_bind (py_getitem state 1) (\<lambda>y1.
         py_bind (py_getitem state 2) (\<lambda>y2.
         py_bind (py_getitem state 2) (\<lambda>z2.
         py_bind (py_getitem state 3) (\<lambda>z3.
         py_bind (py_getitem state 3) (\<lambda>w3.
         py_bind (py_getitem state 4) (\<lambda>w4.
         let nonlinear = ((y1 AND y2) XOR (z2 AND z3)) XOR (w3 AND w4) in
         py_return ((linear XOR nonlinear) mod 2))))))))))))"

definition trivium_feedback :: "addr \<Rightarrow> int py" where
  "trivium_feedback state =
     py_bind (py_len state) (\<lambda>n.
       if n < 3 then py_raise ValueError
       else
         py_bind (py_getitem state 0) (\<lambda>x0.
         py_bind (py_getitem state 2) (\<lambda>x2.
         py_bind (py_getitem state 1) (\<lambda>y1.
         py_bind (py_getitem state 2) (\<lambda>y2.
         py_return (((x0 XOR x2) XOR (y1 AND y2)) mod 2))))))"

definition alternating_step_generator :: "addr \<Rightarrow> int py" where
  "alternating_step_generator state =
     py_bind (py_len state) (\<lambda>n.
       if n < 3 then py_raise ValueError
       else
         py_bind (py_getitem state 0) (\<lambda>x0.
         if x0 = 1 then py_getitem state 1 else py_getitem state 2))"

definition majority_function :: "addr \<Rightarrow> int py" where
  "majority_function state =
     py_bind (py_sum state) (\<lambda>ones_count.
     py_bind (py_len state) (\<lambda>n.
     let majority = (if int n div 2 < ones_count then 1 else 0) in
     py_return majority))"

definition threshold_function :: "addr \<Rightarrow> float64 \<Rightarrow> int py" where
  "threshold_function state threshold =
     py_bind (py_sum state) (\<lambda>ones_count.
     py_bind (py_len state) (\<lambda>n.
     py_bind (py_lift (true_div ones_count (int n))) (\<lambda>proportion.
     py_return (if float_le threshold proportion then 1 else 0))))"

definition threshold_with_feedback :: "addr \<Rightarrow> int py" where
  "threshold_with_feedback state = threshold_function state float_0_7"

definition even_parity :: "addr \<Rightarrow> int py" where
  "even_parity state = py_bind (py_sum state) (\<lambda>s. py_return (s mod 2))"

text \<open>The tap table of \<^verbatim>\<open>galois_lfsr\<close>, in the order it is written.\<close>

definition taps :: "(nat \<times> nat list) list" where
  "taps =
     [(2, [0, 1]), (3, [0, 1]), (4, [0, 1]), (5, [0, 2]), (6, [0, 1]), (7, [0, 1]),
      (8, [0, 2, 3, 4]), (9, [0, 4]), (10, [0, 3]), (11, [0, 2]), (15, [0, 1]),
      (16, [0, 1, 3, 12]), (17, [0, 3]), (18, [0, 7]), (19, [0, 1, 4, 18]), (20, [0, 3]),
      (21, [0, 2]), (22, [0, 1]), (23, [0, 5]), (24, [0, 1, 3, 4]), (25, [0, 3]),
      (28, [0, 3]), (29, [0, 2]), (30, [0, 1, 4, 6]), (31, [0, 3]), (32, [0, 1, 2, 22])]"

text \<open>The loop \<^verbatim>\<open>for tap in taps[length]: result ^= state[tap]\<close>.\<close>

fun xor_taps :: "addr \<Rightarrow> nat list \<Rightarrow> int \<Rightarrow> int py" where
  "xor_taps state [] result = py_return result"
| "xor_taps state (tap # rest) result =
     py_bind (py_getitem state tap) (\<lambda>b. xor_taps state rest (result XOR b))"

definition galois_lfsr :: "addr \<Rightarrow> int py" where
  "galois_lfsr state =
     py_bind (py_len state) (\<lambda>length.
       case map_of taps length of
         None \<Rightarrow> py_raise ValueError
       | Some ts \<Rightarrow> xor_taps state ts 0)"

text \<open>
  The dictionary \<^verbatim>\<open>functions\<close>, in the order it is written (\<open>functions\<close> is a
  keyword of Isabelle, hence the suffix).
\<close>

definition functions_dict :: "(string \<times> (addr \<Rightarrow> int py)) list" where
  "functions_dict =
     [(''Grain Stream Cipher'', grain_feedback),
      (''Trivium Stream Cipher'', trivium_feedback),
      (''Alternating Step Generator'', alternating_step_generator),
      (''Majority Function'', majority_function),
      (''Threshold (70%)'', threshold_with_feedback),
      (''Even Parity'', even_parity),
      (''Galois LFSR'', galois_lfsr)]"

section \<open>The transition model and the cycle decomposition engine\<close>

text \<open>
  Modelled from the spec: the module \<^verbatim>\<open>nfsr_cycle_calculator\<close> (the class
  \<^verbatim>\<open>NFSRCycleCalculator\<close> with \<^verbatim>\<open>find_all_cycles\<close>) is imported by \<^verbatim>\<open>test_nfsr.py\<close>
  and is not among the sources. The definitions of this section follow the specification's
  data model, its register transition model and its cycle decomposition engine. These are
  the errors the specification names.
\<close>

datatype core_error =
  InvalidStateLength | FeedbackFunctionError | UnsupportedRegisterLength | InternalConsistencyError

text \<open>
  Modelled from the spec: a State is a sequence of exactly \<open>n\<close> bits. A
  FeedbackFunction maps a State to a bit; \<open>None\<close> stands for a function that raises,
  and a result other than 0 or 1 is a value the transition model rejects.
\<close>

type_synonym feedback = "int list \<Rightarrow> int option"

text \<open>
  Modelled from the spec: a valid feedback function is total over all states of length
  \<open>n\<close> and returns a single bit on each.
\<close>

definition valid_feedback :: "nat \<Rightarrow> feedback \<Rightarrow> bool" where
  "valid_feedback n feedback =
     (\<forall>s. length s = n \<and> set s \<subseteq> {0, 1} \<longrightarrow> feedback s = Some 0 \<or> feedback s = Some 1)"

text \<open>
  Modelled from the spec: the operation \<open>step\<close> of the register transition model. It
  checks the length of the state, computes the feedback bit, drops the oldest bit (the
  first) and appends the feedback bit at the other end.
\<close>

definition step :: "nat \<Rightarrow> feedback \<Rightarrow> int list \<Rightarrow> core_error + int list" where
  "step n feedback s =
     (if length s \<noteq> n then Inl InvalidStateLength
      else case feedback s of
             None \<Rightarrow> Inl FeedbackFunctionError
           | Some b \<Rightarrow> if b = 0 \<or> b = 1 then Inr (tl s @ [b]) else Inl FeedbackFunctionError)"

text \<open>
  Modelled from the spec: a State as an unsigned integer below \<open>2 ^ n\<close>. The
  convention fixed here: the first bit of the sequence is the most significant.
\<close>

definition state_value :: "int list \<Rightarrow> nat" where
  "state_value s = foldl (\<lambda>v b. 2 * v + nat b) 0 s"

fun state_of :: "nat \<Rightarrow> nat \<Rightarrow> int list" where
  "state_of 0 v = []"
| "state_of (Suc n) v = state_of n (v div 2) @ [int (v mod 2)]"

text \<open>
  Modelled from the spec: the classification of a state. Done is either member of a
  cycle or transient, and carries the index of the cycle it is attributed to.
\<close>

datatype classification = Unvisited | InProgress nat | CycleMember nat | Transient nat

fun is_done :: "classification \<Rightarrow> bool" where
  "is_done (CycleMember c) = True"
| "is_done (Transient c) = True"
| "is_done _ = False"

text \<open>
  Modelled from the spec: how a walk stops. Either it meets a state of the same walk,
  in progress at the given position, and a new cycle is found; or it meets a state that is
  done, attributed to the given cycle.
\<close>

datatype walk_end = NewCycle nat | JoinsKnown nat

text \<open>
  Modelled from the spec: the walk from a start state. The table holds one
  classification per state, indexed by the state's integer; a lookup beyond the table is
  an internal consistency error. An unvisited state is put in progress with its position
  in the path, and the walk goes on from its successor; an error of the transition model
  aborts the walk.
\<close>

function walk ::
  "nat \<Rightarrow> feedback \<Rightarrow> classification list \<Rightarrow> nat list \<Rightarrow> nat \<Rightarrow>
   core_error + (classification list \<times> nat list \<times> walk_end)" where
  "walk n feedback table path cur =
     (if length table \<le> cur then Inl InternalConsistencyError
      else case table ! cur of
             Unvisited \<Rightarrow>
               (case step n feedback (state_of n cur) of
                  Inl e \<Rightarrow> Inl e
                | Inr s' \<Rightarrow>
                    walk n feedback (table[cur := InProgress (length path)]) (path @ [cur])
                      (state_value s'))
           | InProgress i \<Rightarrow> Inr (table, path, NewCycle i)
           | CycleMember c \<Rightarrow> Inr (table, path, JoinsKnown c)
           | Transient c \<Rightarrow> Inr (table, path, JoinsKnown c))"
  by pat_completeness auto

termination walk
proof -
  have fewer: "count_list (t[cur := InProgress k]) Unvisited < count_list t Unvisited"
    if "cur < length t" and "t ! cur = Unvisited" for t :: "classification list" and cur k
    using that
  proof (induction t arbitrary: cur)
    case Nil
    then show ?case by simp
  next
    case (Cons c t)
    then show ?case by (cases cur) auto
  qed
  show ?thesis
    by (relation "measure (\<lambda>(n, feedback, t, path, cur). count_list t Unvisited)")
      (auto simp add: fewer)
qed

text \<open>
  Modelled from the spec: marking the states of a walk in the table.
\<close>

definition mark :: "nat list \<Rightarrow> classification \<Rightarrow> classification list \<Rightarrow> classification list" where
  "mark vs c table = fold (\<lambda>v t. t[v := c]) vs table"

text \<open>
  Modelled from the spec: a reported cycle starts at its lowest-valued member.
\<close>

definition canonical :: "nat list \<Rightarrow> nat list" where
  "canonical cycle =
     (let lowest = fold min cycle (hd cycle)
      in rotate (length (takeWhile (\<lambda>v. v \<noteq> lowest) cycle)) cycle)"

text \<open>
  Modelled from the spec: the engine's state between walks: the table, the cycles found
  so far in the order their walks completed, and the number of states marked transient.
\<close>

record engine =
  table :: "classification list"
  found :: "nat list list"
  transient_total :: nat

text \<open>
  Modelled from the spec: the end of a walk. On a new cycle, the path from the first
  repeated state on is the cycle and the states before it are transient feeders of it; on
  a walk that joins a known cycle, every state of the path is transient.
\<close>

definition finish_walk :: "engine \<Rightarrow> classification list \<times> nat list \<times> walk_end \<Rightarrow> engine" where
  "finish_walk eng w =
     (case w of
        (t, path, NewCycle i) \<Rightarrow>
          let cycle = drop i path; feeders = take i path; c = length (found eng)
          in \<lparr>table = mark feeders (Transient c) (mark cycle (CycleMember c) t),
              found = found eng @ [canonical cycle],
              transient_total = transient_total eng + length feeders\<rparr>
      | (t, path, JoinsKnown c) \<Rightarrow>
          \<lparr>table = mark path (Transient c) t,
           found = found eng,
           transient_total = transient_total eng + length path\<rparr>)"

text \<open>
  Modelled from the spec: the walks start from every state that is not done yet, in
  ascending order of the states' integers.
\<close>

fun sweep :: "nat \<Rightarrow> feedback \<Rightarrow> nat list \<Rightarrow> engine \<Rightarrow> core_error + engine" where
  "sweep n feedback [] eng = Inr eng"
| "sweep n feedback (start # rest) eng =
     (if length (table eng) \<le> start then Inl InternalConsistencyError
      else if is_done (table eng ! start) then sweep n feedback rest eng
      else case walk n feedback (table eng) [] start of
             Inl e \<Rightarrow> Inl e
           | Inr w \<Rightarrow> sweep n feedback rest (finish_walk eng w))"

text \<open>
  Modelled from the spec: the CycleDecomposition: the cycles as sequences of States,
  the total count of transient states, and the attribution of every state to a cycle.
\<close>

record decomposition =
  cycles :: "int list list list"
  transient_count :: nat
  attribution :: "classification list"

text \<open>
  Modelled from the spec: the entry point \<open>decompose\<close>. A register length above the
  ceiling \<open>max_length\<close> is rejected before any state is enumerated; any error of a walk
  aborts the decomposition.
\<close>

definition decompose :: "nat \<Rightarrow> nat \<Rightarrow> feedback \<Rightarrow> core_error + decomposition" where
  "decompose max_length n feedback =
     (if max_length < n then Inl UnsupportedRegisterLength
      else case sweep n feedback [0..<2 ^ n]
                  \<lparr>table = replicate (2 ^ n) Unvisited, found = [], transient_total = 0\<rparr> of
             Inl e \<Rightarrow> Inl e
           | Inr eng \<Rightarrow>
               Inr \<lparr>cycles = map (map (state_of n)) (found eng),
                    transient_count = transient_total eng,
                    attribution = table eng\<rparr>)"

text \<open>
  The sets of states a table marks as members of a cycle and as transient, and the
  invariant of the engine between two walks.
\<close>

definition members :: "classification list \<Rightarrow> nat set" where
  "members t = {v. v < length t \<and> (\<exists>c. t ! v = CycleMember c)}"

definition transients :: "classification list \<Rightarrow> nat set" where
  "transients t = {v. v < length t \<and> (\<exists>c. t ! v = Transient c)}"

definition engine_ok :: "nat \<Rightarrow> engine \<Rightarrow> bool" where
  "engine_ok n eng \<longleftrightarrow>
     length (table eng) = 2 ^ n \<and>
     (\<forall>v<2 ^ n. \<forall>i. table eng ! v \<noteq> InProgress i) \<and>
     distinct (concat (found eng)) \<and>
     set (concat (found eng)) = members (table eng) \<and>
     transient_total eng = card (transients (table eng))"

section \<open>Running the store computations\<close>

lemmas py_defs =
  py_bind_def py_return_def py_raise_def py_lift_def py_len_def py_getitem_def py_sum_def

lemma foldl_add_sum_list: "foldl (+) (acc::int) xs = acc + sum_list xs"
  by (induction xs arbitrary: acc) simp_all

lemma sum_list_bits: "set xs \<subseteq> {0, 1} \<Longrightarrow> sum_list xs = int (count_list xs (1::int))"
  by (induction xs) auto

lemma mod2_bit: "(x::int) mod 2 = 0 \<or> x mod 2 = 1"
  by presburger

lemma nth_bit: "set xs \<subseteq> {0, 1} \<Longrightarrow> i < length xs \<Longrightarrow> xs ! i = (0::int) \<or> xs ! i = 1"
proof -
  assume "set xs \<subseteq> {0, 1}" "i < length xs"
  then have "xs ! i \<in> {0, 1}" using nth_mem [of i xs] by blast
  then show ?thesis by simp
qed

lemma foldl_xor_bit:
  "r = 0 \<or> r = 1 \<Longrightarrow> \<forall>t\<in>set ts. f t = 0 \<or> f t = 1 \<Longrightarrow>
   foldl (XOR) (r::int) (map f ts) = 0 \<or> foldl (XOR) r (map f ts) = 1"
proof (induction ts arbitrary: r)
  case Nil
  then show ?case by simp
next
  case (Cons t ts)
  have "r XOR f t = 0 \<or> r XOR f t = 1" using Cons.prems by auto
  then show ?case using Cons.IH [of "r XOR f t"] Cons.prems(2) by simp
qed

text \<open>What each function returns, as a function of the list it was given.\<close>

lemma grain_value_total:
  "grain_feedback a h =
     (if length (h a) < 5 then Inl ValueError
      else Inr (((((h a ! 0 XOR h a ! 1) XOR h a ! 3) XOR h a ! 4) XOR
            (((h a ! 1 AND h a ! 2) XOR (h a ! 2 AND h a ! 3)) XOR (h a ! 3 AND h a ! 4))) mod 2), h)"
  by (auto simp add: grain_feedback_def py_defs)

lemma trivium_value:
  "trivium_feedback a h =
     (if length (h a) < 3 then Inl ValueError
      else Inr (((h a ! 0 XOR h a ! 2) XOR (h a ! 1 AND h a ! 2)) mod 2), h)"
  by (auto simp add: trivium_feedback_def py_defs)

lemma alternating_value:
  "alternating_step_generator a h =
     (if length (h a) < 3 then Inl ValueError
      else if h a ! 0 = 1 then Inr (h a ! 1) else Inr (h a ! 2), h)"
  by (auto simp add: alternating_step_generator_def py_defs)

lemma majority_value:
  "majority_function a h = (Inr (if int (length (h a)) div 2 < sum_list (h a) then 1 else 0), h)"
  by (simp add: majority_function_def py_defs foldl_add_sum_list)

lemma even_parity_value: "even_parity a h = (Inr (sum_list (h a) mod 2), h)"
  by (simp add: even_parity_def py_defs foldl_add_sum_list)

lemma threshold_value:
  "threshold_with_feedback a h =
     (case true_div (sum_list (h a)) (int (length (h a))) of
        Inl e \<Rightarrow> Inl e
      | Inr p \<Rightarrow> Inr (if float_le float_0_7 p then 1 else 0), h)"
  by (simp add: threshold_with_feedback_def threshold_function_def py_defs foldl_add_sum_list
      split: sum.splits)

lemma xor_taps_in_range:
  "\<forall>t\<in>set ts. t < length (h a) \<Longrightarrow>
   xor_taps a ts r h = (Inr (foldl (XOR) r (map (\<lambda>tap. h a ! tap) ts)), h)"
  by (induction ts arbitrary: r) (simp_all add: py_defs)

lemma taps_keys: "fst ` set taps = {2..11} \<union> {15..25} \<union> {28..32}"
  by (auto simp add: taps_def; presburger)

lemma taps_in_range: "map_of taps n = Some ts \<Longrightarrow> \<forall>t\<in>set ts. t < n"
  by (drule map_of_SomeD) (auto simp add: taps_def)

lemma galois_value:
  "galois_lfsr a h =
     (case map_of taps (length (h a)) of
        None \<Rightarrow> Inl ValueError
      | Some ts \<Rightarrow> Inr (foldl (XOR) 0 (map (\<lambda>tap. h a ! tap) ts)), h)"
proof (cases "map_of taps (length (h a))")
  case None
  then show ?thesis by (simp add: galois_lfsr_def py_defs)
next
  case (Some ts)
  then have "\<forall>t\<in>set ts. t < length (h a)" by (rule taps_in_range)
  then have "xor_taps a ts 0 h = (Inr (foldl (XOR) 0 (map (\<lambda>tap. h a ! tap) ts)), h)"
    by (rule xor_taps_in_range)
  with Some show ?thesis by (simp add: galois_lfsr_def py_defs)
qed

lemma galois_unsupported:
  "length (h a) \<notin> {2..11} \<union> {15..25} \<union> {28..32} \<Longrightarrow> galois_lfsr a h = (Inl ValueError, h)"
proof -
  assume "length (h a) \<notin> {2..11} \<union> {15..25} \<union> {28..32}"
  then have "map_of taps (length (h a)) = None"
    by (simp only: map_of_eq_None_iff taps_keys not_False_eq_True)
  then show ?thesis by (simp add: galois_lfsr_def py_defs)
qed

lemma galois_supported:
  assumes "length (h a) \<in> {2..11} \<union> {15..25} \<union> {28..32}"
  shows "\<exists>ts. map_of taps (length (h a)) = Some ts \<and>
           galois_lfsr a h = (Inr (foldl (XOR) 0 (map (\<lambda>tap. h a ! tap) ts)), h)"
proof -
  from assms have "map_of taps (length (h a)) \<noteq> None"
    by (simp only: map_of_eq_None_iff taps_keys not_not)
  then obtain ts where ts: "map_of taps (length (h a)) = Some ts" by blast
  then have "\<forall>t\<in>set ts. t < length (h a)" by (rule taps_in_range)
  then have "xor_taps a ts 0 h = (Inr (foldl (XOR) 0 (map (\<lambda>tap. h a ! tap) ts)), h)"
    by (rule xor_taps_in_range)
  with ts show ?thesis by (simp add: galois_lfsr_def py_defs)
qed

lemma functions_cases:
  assumes "(name, f) \<in> set functions_dict"
  obtains "name = ''Grain Stream Cipher''" "f = grain_feedback"
  | "name = ''Trivium Stream Cipher''" "f = trivium_feedback"
  | "name = ''Alternating Step Generator''" "f = alternating_step_generator"
  | "name = ''Majority Function''" "f = majority_function"
  | "name = ''Threshold (70%)''" "f = threshold_with_feedback"
  | "name = ''Even Parity''" "f = even_parity"
  | "name = ''Galois LFSR''" "f = galois_lfsr"
proof -
  from assms have
    "(name, f) = (''Grain Stream Cipher'', grain_feedback) \<or>
     (name, f) = (''Trivium Stream Cipher'', trivium_feedback) \<or>
     (name, f) = (''Alternating Step Generator'', alternating_step_generator) \<or>
     (name, f) = (''Majority Function'', majority_function) \<or>
     (name, f) = (''Threshold (70%)'', threshold_with_feedback) \<or>
     (name, f) = (''Even Parity'', even_parity) \<or>
     (name, f) = (''Galois LFSR'', galois_lfsr)"
    unfolding functions_dict_def by (simp only: list.set insert_iff empty_iff simp_thms)
  then show thesis by (elim disjE Pair_inject) (rule that; assumption)+
qed

lemma functions_read_only:
  assumes "(name, f) \<in> set functions_dict"
  shows "\<exists>g. \<forall>a h. f a h = (g (h a), h)"
  using assms
proof (cases rule: functions_cases)
  case 1
  show ?thesis unfolding 1 by (rule exI [of _ "\<lambda>xs. if length xs < 5 then Inl ValueError
      else Inr (((((xs ! 0 XOR xs ! 1) XOR xs ! 3) XOR xs ! 4) XOR
            (((xs ! 1 AND xs ! 2) XOR (xs ! 2 AND xs ! 3)) XOR (xs ! 3 AND xs ! 4))) mod 2)"])
      (simp add: grain_value_total)
next
  case 2
  show ?thesis unfolding 2 by (rule exI [of _ "\<lambda>xs. if length xs < 3 then Inl ValueError
      else Inr (((xs ! 0 XOR xs ! 2) XOR (xs ! 1 AND xs ! 2)) mod 2)"])
      (simp add: trivium_value)
next
  case 3
  show ?thesis unfolding 3 by (rule exI [of _ "\<lambda>xs. if length xs < 3 then Inl ValueError
      else if xs ! 0 = 1 then Inr (xs ! 1) else Inr (xs ! 2)"])
      (simp add: alternating_value)
next
  case 4
  show ?thesis unfolding 4
    by (rule exI [of _ "\<lambda>xs. Inr (if int (length xs) div 2 < sum_list xs then 1 else 0)"])
      (simp add: majority_value)
next
  case 5
  show ?thesis unfolding 5
    by (rule exI [of _ "\<lambda>xs. case true_div (sum_list xs) (int (length xs)) of
        Inl e \<Rightarrow> Inl e | Inr p \<Rightarrow> Inr (if float_le float_0_7 p then 1 else 0)"])
      (simp add: threshold_value)
next
  case 6
  show ?thesis unfolding 6
    by (rule exI [of _ "\<lambda>xs. Inr (sum_list xs mod 2)"]) (simp add: even_parity_value)
next
  case 7
  show ?thesis unfolding 7
    by (rule exI [of _ "\<lambda>xs. case map_of taps (length xs) of None \<Rightarrow> Inl ValueError
        | Some ts \<Rightarrow> Inr (foldl (XOR) 0 (map (\<lambda>tap. xs ! tap) ts))"])
      (simp add: galois_value)
qed

section \<open>Rounded division against the literal 0.7\<close>

lemma bitlen_mono: "x \<le> y \<Longrightarrow> bitlen x \<le> bitlen y"
  by (simp add: bitlen_def floorlog_mono)

lemma floor_log2_quot_self: "0 < x \<Longrightarrow> floor_log2_quot x x = 0"
  by (simp add: floor_log2_quot_def)

lemma floor_log2_quot_less:
  assumes "0 < x" "x < y"
  shows "floor_log2_quot x y \<le> - 1 \<and> x * 2 ^ nat (- floor_log2_quot x y - 1) < y"
proof -
  define d where "d = bitlen x - bitlen y"
  have d0: "d \<le> 0" using bitlen_mono [of x y] assms by (simp add: d_def)
  have y0: "0 < y" using assms by simp
  show ?thesis
  proof (cases "d < 0 \<and> y \<le> x * 2 ^ nat (- d)")
    case True
    then have e: "floor_log2_quot x y = d" by (simp add: floor_log2_quot_def d_def Let_def)
    have bx: "x < 2 ^ nat (bitlen x)" using bitlen_bounds [OF assms(1)] by simp
    have byl: "2 ^ nat (bitlen y - 1) \<le> y" using bitlen_bounds [OF y0] by simp
    have "nat (bitlen y - 1) = nat (- d - 1) + nat (bitlen x)"
      using True bitlen_nonneg [of x] unfolding d_def by linarith
    then have "(2::int) ^ nat (bitlen y - 1) = 2 ^ nat (- d - 1) * 2 ^ nat (bitlen x)"
      by (simp add: power_add)
    moreover have "x * 2 ^ nat (- d - 1) < 2 ^ nat (- d - 1) * 2 ^ nat (bitlen x)"
      using bx by (simp add: mult.commute)
    ultimately have "x * 2 ^ nat (- d - 1) < y" using byl by linarith
    with True e show ?thesis by simp
  next
    case False
    then have e: "floor_log2_quot x y = d - 1"
      using d0 assms by (auto simp add: floor_log2_quot_def d_def Let_def)
    have "x * 2 ^ nat (- d) < y"
    proof (cases "d = 0")
      case True then show ?thesis using assms by simp
    next
      case False with \<open>\<not> (d < 0 \<and> y \<le> x * 2 ^ nat (- d))\<close> d0 show ?thesis by simp
    qed
    moreover have "- (d - 1) - 1 = - d" by simp
    ultimately show ?thesis using d0 e by simp
  qed
qed

lemma round_half_even_cases:
  "round_half_even a b = a div b \<or> (round_half_even a b = a div b + 1 \<and> b \<le> 2 * (a mod b))"
  by (simp add: round_half_even_def Let_def)

lemma round_half_even_ge: "a div b \<le> round_half_even a b"
  using round_half_even_cases [of a b] by auto

lemma round_half_even_le: "round_half_even a b \<le> a div b + 1"
  using round_half_even_cases [of a b] by auto

lemma threshold_core:
  assumes "0 < k" "k < n" "n \<le> 1000000000000000"
  shows "(6305039478318694 \<le> round_half_even (k * 2 ^ 53) n) \<longleftrightarrow> (7 * n \<le> 10 * k)"
proof -
  define a where "a = k * 9007199254740992"
  define q where "q = a div n"
  define r where "r = a mod n"
  have p53: "(2::int) ^ 53 = 9007199254740992" by simp
  have n0: "0 < n" using assms by simp
  have ar: "a = n * q + r" by (simp add: q_def r_def)
  have r0: "0 \<le> r" and rn: "r < n" using n0 by (simp_all add: r_def)
  have m: "round_half_even a n = q \<or> (round_half_even a n = q + 1 \<and> n \<le> 2 * r)"
    using round_half_even_cases [of a n] by (simp add: q_def r_def)
  have up: "6305039478318694 \<le> q" if "7 * n \<le> 10 * k"
  proof (rule ccontr)
    assume "\<not> 6305039478318694 \<le> q"
    then have "q \<le> 6305039478318693" by simp
    then have "n * q \<le> n * 6305039478318693" using n0 by (simp add: mult_left_mono)
    with ar rn that n0 show False unfolding a_def by linarith
  qed
  have down: "7 * n \<le> 10 * k" if "6305039478318694 \<le> round_half_even a n"
  proof (rule ccontr)
    assume neg: "\<not> 7 * n \<le> 10 * k"
    from m show False
    proof
      assume eq: "round_half_even a n = q"
      with that have "n * 6305039478318694 \<le> n * q" using n0 by (simp add: mult_left_mono)
      with ar r0 neg assms(3) show False unfolding a_def by linarith
    next
      assume eq: "round_half_even a n = q + 1 \<and> n \<le> 2 * r"
      with that have "6305039478318693 \<le> q" by simp
      then have "n * 6305039478318693 \<le> n * q" using n0 by (simp add: mult_left_mono)
      with ar eq neg assms(3) show False unfolding a_def by linarith
    qed
  qed
  have "6305039478318694 \<le> round_half_even a n" if "7 * n \<le> 10 * k"
    using up [OF that] round_half_even_ge [of a n] by (simp add: q_def)
  with down show ?thesis unfolding p53 a_def by blast
qed

lemma int_div_less: "0 < n \<Longrightarrow> a < n * c \<Longrightarrow> a div n < (c::int)"
proof (rule ccontr)
  assume n: "0 < n" and a: "a < n * c" and "\<not> a div n < c"
  then have "n * c \<le> n * (a div n)" by (simp add: mult_left_mono)
  moreover have "a = n * (a div n) + a mod n" by simp
  moreover have "0 \<le> a mod n" using n by simp
  ultimately show False using a by linarith
qed

lemma true_div_less:
  assumes "0 < k" "k < n"
  shows "\<exists>q m. true_div k n = Inr (Float64 m q) \<and> q \<le> - 53 \<and>
           (q = - 53 \<longrightarrow> m = round_half_even (k * 2 ^ 53) n) \<and>
           (q < - 53 \<longrightarrow> m \<le> 2 ^ 53 \<and> 2 * k < n)"
proof -
  define e where "e = floor_log2_quot k n"
  define q where "q = max e (- 1022) - 52"
  define m where "m = round_half_even (k * 2 ^ nat (- q)) n"
  have e1: "e \<le> - 1" and eb: "k * 2 ^ nat (- e - 1) < n"
    using floor_log2_quot_less [OF assms] by (simp_all add: e_def)
  have q53: "q \<le> - 53" using e1 by (simp add: q_def)
  have n0: "0 < n" using assms by simp
  have td: "true_div k n = Inr (Float64 m q)"
    using assms n0 e1 unfolding e_def q_def m_def true_div_def Let_def by (auto simp add: max_def)
  have exact: "m = round_half_even (k * 2 ^ 53) n" if "q = - 53"
    using that by (simp add: m_def)
  have far: "m \<le> 2 ^ 53 \<and> 2 * k < n" if "q < - 53"
  proof -
    define t where "t = nat (- q - 52)"
    have e2: "e \<le> - 2" using that by (simp add: q_def)
    have t2: "2 \<le> t" using that by (simp add: t_def)
    have tq: "nat (- q) = (t - 1) + 53" using that by (simp add: t_def)
    have te: "t - 1 \<le> nat (- e - 1)" using e2 by (simp add: t_def q_def)
    have "(2::int) ^ (t - 1) \<le> 2 ^ nat (- e - 1)" using te by (simp add: power_increasing)
    then have "k * 2 ^ (t - 1) \<le> k * 2 ^ nat (- e - 1)" using assms(1) by (simp add: mult_left_mono)
    with eb have small: "k * 2 ^ (t - 1) < n" by simp
    then have "k * 2 ^ (t - 1) * 2 ^ 53 < n * 2 ^ 53" by simp
    then have "k * 2 ^ nat (- q) < n * 2 ^ 53" by (simp add: tq power_add mult.assoc)
    then have "(k * 2 ^ nat (- q)) div n < 2 ^ 53" using n0 by (rule int_div_less [rotated])
    then have m53: "m \<le> 2 ^ 53" using round_half_even_le [of "k * 2 ^ nat (- q)" n] by (simp add: m_def)
    have "(2::int) ^ 1 \<le> 2 ^ (t - 1)" using t2 by (intro power_increasing) simp_all
    then have "k * 2 \<le> k * 2 ^ (t - 1)" using assms(1) by (simp add: mult_left_mono)
    with small have "2 * k < n" by simp
    with m53 show ?thesis by simp
  qed
  from td q53 exact far show ?thesis by blast
qed

lemma float_le_0_7:
  "q \<le> - 53 \<Longrightarrow> float_le float_0_7 (Float64 m q) = (6305039478318694 * 2 ^ nat (- 53 - q) \<le> m)"
  by (simp add: float_le_def float_0_7_def min_def)

lemma true_div_zero: "0 < n \<Longrightarrow> true_div 0 n = Inr (Float64 0 0)"
  by (simp add: true_div_def)

lemma true_div_self: "0 < n \<Longrightarrow> true_div n n = Inr (Float64 (2 ^ 52) (- 52))"
  by (simp add: true_div_def floor_log2_quot_self round_half_even_def)

lemma true_div_total:
  assumes "0 \<le> k" "k \<le> n" "0 < n"
  shows "\<exists>p. true_div k n = Inr p"
proof -
  consider "k = 0" | "k = n" | "0 < k" "k < n" using assms by linarith
  then show ?thesis
  proof cases
    case 1 then show ?thesis using assms by (simp add: true_div_zero)
  next
    case 2 then show ?thesis using assms by (simp add: true_div_self)
  next
    case 3 then show ?thesis using true_div_less [of k n] by blast
  qed
qed

lemma threshold_compare:
  assumes "0 \<le> k" "k \<le> n" "0 < n" "n \<le> 1000000000000000"
  shows "\<exists>p. true_div k n = Inr p \<and> float_le float_0_7 p = (7 * n \<le> 10 * k)"
proof -
  consider "k = 0" | "k = n" | "0 < k" "k < n" using assms by linarith
  then show ?thesis
  proof cases
    case 1
    then show ?thesis using assms by (simp add: true_div_zero float_le_def float_0_7_def)
  next
    case 2
    then show ?thesis using assms by (simp add: true_div_self float_le_def float_0_7_def)
  next
    case 3
    from true_div_less [OF 3] obtain q m where
      td: "true_div k n = Inr (Float64 m q)" and q: "q \<le> - 53"
      and exact: "q = - 53 \<longrightarrow> m = round_half_even (k * 2 ^ 53) n"
      and far: "q < - 53 \<longrightarrow> m \<le> 2 ^ 53 \<and> 2 * k < n" by blast
    show ?thesis
    proof (cases "q = - 53")
      case True
      with exact have "m = round_half_even (k * 2 ^ 53) n" by simp
      with threshold_core [OF 3 assms(4)] td True show ?thesis by (simp add: float_le_0_7)
    next
      case False
      with q far have lt: "q < - 53" and m: "m \<le> 2 ^ 53" and k2: "2 * k < n" by simp_all
      have "(2::int) ^ 1 \<le> 2 ^ nat (- 53 - q)" using lt by (intro power_increasing) simp_all
      then have "6305039478318694 * (2::int) \<le> 6305039478318694 * 2 ^ nat (- 53 - q)" by simp
      with m have "\<not> 6305039478318694 * 2 ^ nat (- 53 - q) \<le> m" by simp
      moreover have "\<not> 7 * n \<le> 10 * k" using k2 3 by simp
      ultimately show ?thesis using td q by (simp add: float_le_0_7)
    qed
  qed
qed

text \<open>The literal is what Python's division of 7 by 10 gives.\<close>

lemma float_0_7_nearest: "true_div 7 10 = Inr float_0_7"
  by code_simp

lemma count_list_replicate: "count_list (replicate n x) y = (if x = y then n else 0)"
  by (induction n) auto

lemma count_list_append: "count_list (xs @ ys) y = count_list xs y + count_list ys y"
  by (induction xs) simp_all

section \<open>The example library: what the functions return\<close>

text \<open>
  C2. Every function of the dictionary \<^verbatim>\<open>functions\<close>, given a list of bits whose length
  meets that function's own requirement (at least 5 for the Grain function, at least 3 for
  the Trivium function and the alternating step generator, a key of the tap table for the
  Galois function, not empty for the other three), returns without raising, and what it
  returns is 0 or 1.
\<close>

theorem functions_return_single_bit:
  assumes "(name, f) \<in> set functions_dict" and "set (h a) \<subseteq> {0, 1}"
    and "name = ''Grain Stream Cipher'' \<longrightarrow> 5 \<le> length (h a)"
    and "name = ''Trivium Stream Cipher'' \<longrightarrow> 3 \<le> length (h a)"
    and "name = ''Alternating Step Generator'' \<longrightarrow> 3 \<le> length (h a)"
    and "name = ''Galois LFSR'' \<longrightarrow> length (h a) \<in> fst ` set taps"
    and "name \<in> {''Majority Function'', ''Threshold (70%)'', ''Even Parity''} \<longrightarrow> h a \<noteq> []"
  shows "fst (f a h) = Inr 0 \<or> fst (f a h) = Inr 1"
  using assms(1)
proof (cases rule: functions_cases)
  case 1
  with assms(3) show ?thesis using mod2_bit by (simp add: grain_value_total)
next
  case 2
  with assms(4) show ?thesis using mod2_bit by (simp add: trivium_value)
next
  case 3
  with assms(5) have "3 \<le> length (h a)" by simp
  then have "h a ! 1 = 0 \<or> h a ! 1 = 1" "h a ! 2 = 0 \<or> h a ! 2 = 1"
    using nth_bit [OF assms(2)] by simp_all
  with 3 \<open>3 \<le> length (h a)\<close> show ?thesis by (auto simp add: alternating_value)
next
  case 4
  then show ?thesis by (simp add: majority_value)
next
  case 5
  with assms(7) have ne: "h a \<noteq> []" by simp
  have "sum_list (h a) = int (count_list (h a) 1)" using assms(2) by (rule sum_list_bits)
  moreover have "count_list (h a) 1 \<le> length (h a)" by (rule count_le_length)
  ultimately obtain p where "true_div (sum_list (h a)) (int (length (h a))) = Inr p"
    using true_div_total [of "sum_list (h a)" "int (length (h a))"] ne by auto
  with 5 show ?thesis by (simp add: threshold_value)
next
  case 6
  then show ?thesis using mod2_bit by (simp add: even_parity_value)
next
  case 7
  with assms(6) have "map_of taps (length (h a)) \<noteq> None"
    by (simp only: map_of_eq_None_iff not_not simp_thms)
  then obtain ts where ts: "map_of taps (length (h a)) = Some ts" by blast
  then have "\<forall>t\<in>set ts. t < length (h a)" by (rule taps_in_range)
  then have "\<forall>t\<in>set ts. h a ! t = 0 \<or> h a ! t = 1" using nth_bit [OF assms(2)] by blast
  then have "foldl (XOR) 0 (map (\<lambda>tap. h a ! tap) ts) = 0 \<or> foldl (XOR) 0 (map (\<lambda>tap. h a ! tap) ts) = 1"
    by (intro foldl_xor_bit) simp_all
  with 7 ts show ?thesis by (simp add: galois_value)
qed

theorem functions_return_single_bit_witness:
  "(''Galois LFSR'', galois_lfsr) \<in> set functions_dict \<and> set [1, 0, 1, 1, 0 :: int] \<subseteq> {0, 1} \<and>
   length [1, 0, 1, 1, 0 :: int] \<in> fst ` set taps \<and>
   (fst (galois_lfsr 0 (\<lambda>_. [1, 0, 1, 1, 0])) = Inr 0 \<or>
    fst (galois_lfsr 0 (\<lambda>_. [1, 0, 1, 1, 0])) = Inr 1) \<and>
   (''Threshold (70%)'', threshold_with_feedback) \<in> set functions_dict \<and> [1, 0, 1, 1, 0 :: int] \<noteq> [] \<and>
   (fst (threshold_with_feedback 0 (\<lambda>_. [1, 0, 1, 1, 0])) = Inr 0 \<or>
    fst (threshold_with_feedback 0 (\<lambda>_. [1, 0, 1, 1, 0])) = Inr 1)"
  using functions_return_single_bit [of "''Galois LFSR''" galois_lfsr "\<lambda>_. [1, 0, 1, 1, 0]" 0]
    functions_return_single_bit [of "''Threshold (70%)''" threshold_with_feedback "\<lambda>_. [1, 0, 1, 1, 0]" 0]
  by (simp add: functions_dict_def taps_def)

text \<open>
  C3. A function of the dictionary returns the same result for equal lists, whatever else
  the store holds and wherever the list lives; and a second call right after the first
  returns what the first returned.
\<close>

theorem functions_deterministic:
  assumes "(name, f) \<in> set functions_dict"
  shows "(h a = h' a' \<longrightarrow> fst (f a h) = fst (f a' h')) \<and>
         fst (f a (snd (f a h))) = fst (f a h)"
proof -
  from functions_read_only [OF assms] obtain g where "\<forall>a h. f a h = (g (h a), h)" ..
  then show ?thesis by simp
qed

theorem functions_deterministic_witness:
  "(''Trivium Stream Cipher'', trivium_feedback) \<in> set functions_dict \<and>
   (\<lambda>_. [1, 0, 1 :: int]) (0 :: addr) = ((\<lambda>_. []) (5 := [1, 0, 1])) 5 \<and>
   fst (trivium_feedback 0 (\<lambda>_. [1, 0, 1])) = fst (trivium_feedback 5 ((\<lambda>_. []) (5 := [1, 0, 1]))) \<and>
   fst (trivium_feedback 0 (snd (trivium_feedback 0 (\<lambda>_. [1, 0, 1])))) =
     fst (trivium_feedback 0 (\<lambda>_. [1, 0, 1]))"
  using functions_deterministic [of "''Trivium Stream Cipher''" trivium_feedback
      "\<lambda>_. [1, 0, 1]" 0 "(\<lambda>_. []) (5 := [1, 0, 1])" 5]
  by (simp add: functions_dict_def)

text \<open>
  C4. \<^verbatim>\<open>galois_lfsr\<close> raises exactly when the length of the state is not a key of its tap
  table, that is not in 2..11, 15..25 or 28..32, and what it raises is ValueError. For a
  state of a supported length it returns the exclusive or of the elements at that
  length's tap positions.
\<close>

theorem galois_lfsr_spec:
  "(fst (galois_lfsr a h) = Inl ValueError \<longleftrightarrow> length (h a) \<notin> {2..11} \<union> {15..25} \<union> {28..32}) \<and>
   (\<forall>e. fst (galois_lfsr a h) = Inl e \<longrightarrow> e = ValueError) \<and>
   (length (h a) \<in> {2..11} \<union> {15..25} \<union> {28..32} \<longrightarrow>
      (\<exists>ts. map_of taps (length (h a)) = Some ts \<and>
         fst (galois_lfsr a h) = Inr (foldl (XOR) 0 (map (\<lambda>tap. h a ! tap) ts))))"
proof (cases "length (h a) \<in> {2..11} \<union> {15..25} \<union> {28..32}")
  case True
  from galois_supported [of h a, OF True] obtain ts where
    "map_of taps (length (h a)) = Some ts"
    "galois_lfsr a h = (Inr (foldl (XOR) 0 (map (\<lambda>tap. h a ! tap) ts)), h)" by blast
  with True show ?thesis by simp
next
  case False
  with galois_unsupported [of h a] show ?thesis by simp
qed

theorem galois_lfsr_spec_witness:
  "length [1, 0, 1, 1, 0 :: int] \<in> {2..11} \<union> {15..25} \<union> {28..32} \<and>
   fst (galois_lfsr 0 (\<lambda>_. [1, 0, 1, 1, 0])) = Inr 0 \<and>
   length [1 :: int] \<notin> {2..11} \<union> {15..25} \<union> {28..32} \<and>
   fst (galois_lfsr 0 (\<lambda>_. [1])) = Inl ValueError"
  using galois_lfsr_spec [of 0 "\<lambda>_. [1, 0, 1, 1, 0]"] galois_lfsr_spec [of 0 "\<lambda>_. [1]"]
  by (simp add: taps_def)

text \<open>
  C5. \<^verbatim>\<open>grain_feedback\<close> raises exactly when the state has fewer than 5 elements, and what
  it raises is ValueError. For a list of bits of length at least 5 it returns
  x0 XOR x1 XOR x3 XOR x4 XOR (x1 AND x2) XOR (x2 AND x3) XOR (x3 AND x4) reduced mod 2,
  which is 0 or 1.
\<close>

theorem grain_feedback_spec:
  "(fst (grain_feedback a h) = Inl ValueError \<longleftrightarrow> length (h a) < 5) \<and>
   (\<forall>e. fst (grain_feedback a h) = Inl e \<longrightarrow> e = ValueError) \<and>
   (5 \<le> length (h a) \<and> set (h a) \<subseteq> {0, 1} \<longrightarrow>
      fst (grain_feedback a h) =
        Inr ((h a ! 0 XOR h a ! 1 XOR h a ! 3 XOR h a ! 4 XOR
              (h a ! 1 AND h a ! 2) XOR (h a ! 2 AND h a ! 3) XOR (h a ! 3 AND h a ! 4)) mod 2) \<and>
      (fst (grain_feedback a h) = Inr 0 \<or> fst (grain_feedback a h) = Inr 1))"
proof (cases "length (h a) < 5")
  case True
  then show ?thesis by (simp add: grain_value_total)
next
  case False
  then have len: "5 \<le> length (h a)" by simp
  show ?thesis using False by (simp add: grain_value_total xor.assoc) presburger
qed

theorem grain_feedback_spec_witness:
  "5 \<le> length [1, 0, 1, 1, 0 :: int] \<and> set [1, 0, 1, 1, 0 :: int] \<subseteq> {0, 1} \<and>
   fst (grain_feedback 0 (\<lambda>_. [1, 0, 1, 1, 0])) = Inr 1 \<and>
   fst (grain_feedback 0 (\<lambda>_. [1, 0, 1])) = Inl ValueError"
  using grain_feedback_spec [of 0 "\<lambda>_. [1, 0, 1, 1, 0]"] grain_feedback_spec [of 0 "\<lambda>_. [1, 0, 1]"]
  by simp

text \<open>
  C6. No function of the dictionary changes the list it was given: the store after the
  call, whether the call returned or raised, is the store before it.
\<close>

theorem functions_leave_state_unchanged:
  assumes "(name, f) \<in> set functions_dict"
  shows "snd (f a h) = h \<and> snd (f a h) a = h a"
proof -
  from functions_read_only [OF assms] obtain g where "\<forall>a h. f a h = (g (h a), h)" ..
  then show ?thesis by simp
qed

theorem functions_leave_state_unchanged_witness:
  "(''Grain Stream Cipher'', grain_feedback) \<in> set functions_dict \<and>
   snd (grain_feedback 0 (\<lambda>_. [1, 0, 1, 1, 0])) 0 = [1, 0, 1, 1, 0] \<and>
   snd (grain_feedback 0 (\<lambda>_. [1, 0])) 0 = [1, 0]"
  using functions_leave_state_unchanged [of "''Grain Stream Cipher''" grain_feedback 0 "\<lambda>_. [1, 0, 1, 1, 0]"]
    functions_leave_state_unchanged [of "''Grain Stream Cipher''" grain_feedback 0 "\<lambda>_. [1, 0]"]
  by (simp add: functions_dict_def)

text \<open>
  Where the rounding shows. The function compares a rounded quotient with the double
  nearest to 0.7, which lies below 7/10. A list of 10000000000000003 bits, 7000000000000002
  of them ones, is below the threshold by one part in 10^17; its quotient rounds to that
  same double and the function returns 1. Such a list is 8 * 10^16 bytes of element
  pointers, beyond what a process can hold: the lemma marks the length from which the
  model of the division stops agreeing with exact arithmetic, not an input of the function.
\<close>

lemma threshold_rounds_up_beyond_bound:
  "replicate 7000000000000002 (1::int) @ replicate 3000000000000001 0 \<noteq> [] \<and>
   set (replicate 7000000000000002 (1::int) @ replicate 3000000000000001 0) \<subseteq> {0, 1} \<and>
   fst (threshold_with_feedback 0
          (\<lambda>_. replicate 7000000000000002 1 @ replicate 3000000000000001 0)) = Inr 1 \<and>
   \<not> 7 * length (replicate 7000000000000002 (1::int) @ replicate 3000000000000001 0)
       \<le> 10 * count_list (replicate 7000000000000002 (1::int) @ replicate 3000000000000001 0) 1"
proof -
  have "true_div 7000000000000002 10000000000000003 = Inr float_0_7" by code_simp
  moreover have "float_le float_0_7 float_0_7" by (simp add: float_le_def)
  ultimately show ?thesis
    by (simp add: threshold_value sum_list_replicate count_list_append count_list_replicate)
qed

text \<open>
  C7. \<^verbatim>\<open>threshold_with_feedback\<close> performs exact arithmetic at the threshold 0.7: for
  every non-empty list of bits it returns 1 exactly when ten times the number of ones is
  at least seven times the length, and 0 otherwise. The lists are those a Python process
  can hold: the statement covers every length up to 10^15, which is above the 2^44
  element pointers that fit in an address space of 2^47 bytes, and far above the register
  lengths the functions are written for.
\<close>

theorem threshold_with_feedback_exact:
  assumes "h a \<noteq> []" "set (h a) \<subseteq> {0, 1}" "length (h a) \<le> 1000000000000000"
  shows "fst (threshold_with_feedback a h) =
           Inr (if 7 * length (h a) \<le> 10 * count_list (h a) 1 then 1 else 0)"
proof -
  have s: "sum_list (h a) = int (count_list (h a) 1)" using assms(2) by (rule sum_list_bits)
  have "count_list (h a) 1 \<le> length (h a)" by (rule count_le_length)
  with assms obtain p where
    "true_div (int (count_list (h a) 1)) (int (length (h a))) = Inr p"
    "float_le float_0_7 p = (7 * int (length (h a)) \<le> 10 * int (count_list (h a) 1))"
    using threshold_compare [of "int (count_list (h a) 1)" "int (length (h a))"] by auto
  moreover have "(7 * int (length (h a)) \<le> 10 * int (count_list (h a) 1)) =
      (7 * length (h a) \<le> 10 * count_list (h a) 1)" by linarith
  ultimately show ?thesis by (simp add: threshold_value s)
qed

theorem threshold_with_feedback_exact_witness:
  "[1, 1, 1, 0, 1, 1, 0, 1, 1, 0 :: int] \<noteq> [] \<and> set [1, 1, 1, 0, 1, 1, 0, 1, 1, 0 :: int] \<subseteq> {0, 1} \<and>
   length [1, 1, 1, 0, 1, 1, 0, 1, 1, 0 :: int] \<le> 1000000000000000 \<and>
   fst (threshold_with_feedback 0 (\<lambda>_. [1, 1, 1, 0, 1, 1, 0, 1, 1, 0])) = Inr 1 \<and>
   fst (threshold_with_feedback 0 (\<lambda>_. [1, 1, 0])) = Inr 0"
  using threshold_with_feedback_exact [of "\<lambda>_. [1, 1, 1, 0, 1, 1, 0, 1, 1, 0]" 0]
    threshold_with_feedback_exact [of "\<lambda>_. [1, 1, 0]" 0]
  by simp

text \<open>
  C8. \<^verbatim>\<open>grain_feedback\<close> looks at the first five elements only: two states of length at
  least 5 that agree at the indices 0 to 4 get the same result.
\<close>

theorem grain_feedback_first_five:
  assumes "5 \<le> length (h a)" "5 \<le> length (h' a')" "\<forall>i<5. h a ! i = h' a' ! i"
  shows "fst (grain_feedback a h) = fst (grain_feedback a' h')"
proof -
  have "h a ! 0 = h' a' ! 0" "h a ! 1 = h' a' ! 1" "h a ! 2 = h' a' ! 2" "h a ! 3 = h' a' ! 3" "h a ! 4 = h' a' ! 4"
    using assms(3) by simp_all
  then show ?thesis using assms(1, 2) by (simp add: grain_value_total)
qed

theorem grain_feedback_first_five_witness:
  "5 \<le> length [1, 0, 1, 1, 0, 0 :: int] \<and> 5 \<le> length [1, 0, 1, 1, 0, 1, 1 :: int] \<and>
   take 5 [1, 0, 1, 1, 0, 0 :: int] = take 5 [1, 0, 1, 1, 0, 1, 1] \<and>
   fst (grain_feedback 0 (\<lambda>_. [1, 0, 1, 1, 0, 0])) =
     fst (grain_feedback 3 (\<lambda>_. [1, 0, 1, 1, 0, 1, 1]))"
proof -
  have agree: "\<forall>i<5. [1, 0, 1, 1, 0, 0 :: int] ! i = [1, 0, 1, 1, 0, 1, 1] ! i"
  proof (intro allI impI)
    fix i :: nat
    assume "i < 5"
    then consider "i = 0" | "i = 1" | "i = 2" | "i = 3" | "i = 4" by linarith
    then show "[1, 0, 1, 1, 0, 0 :: int] ! i = [1, 0, 1, 1, 0, 1, 1] ! i" by cases simp_all
  qed
  show ?thesis
    using agree grain_feedback_first_five [of "\<lambda>_. [1, 0, 1, 1, 0, 0]" 0 "\<lambda>_. [1, 0, 1, 1, 0, 1, 1]" 3]
    by simp
qed

text \<open>
  C9. \<^verbatim>\<open>majority_function\<close> returns, for every list of bits, the empty one included, 1
  exactly when the number of ones is above half the length rounded down; so it returns 0
  on the empty list and on a tie.
\<close>

theorem majority_function_spec:
  assumes "set (h a) \<subseteq> {0, 1}"
  shows "fst (majority_function a h) =
           Inr (if length (h a) div 2 < count_list (h a) 1 then 1 else 0) \<and>
         (h a = [] \<longrightarrow> fst (majority_function a h) = Inr 0) \<and>
         (2 * count_list (h a) 1 = length (h a) \<longrightarrow> fst (majority_function a h) = Inr 0)"
proof -
  have "(int (length (h a)) div 2 < int (count_list (h a) 1)) = (length (h a) div 2 < count_list (h a) 1)"
    by linarith
  then show ?thesis
    using assms by (auto simp add: majority_value sum_list_bits)
qed

theorem majority_function_spec_witness:
  "set [1, 0, 1 :: int] \<subseteq> {0, 1} \<and> fst (majority_function 0 (\<lambda>_. [1, 0, 1])) = Inr 1 \<and>
   fst (majority_function 0 (\<lambda>_. [])) = Inr 0 \<and>
   fst (majority_function 0 (\<lambda>_. [1, 0, 0, 1])) = Inr 0"
  using majority_function_spec [of "\<lambda>_. [1, 0, 1]" 0] majority_function_spec [of "\<lambda>_. []" 0]
    majority_function_spec [of "\<lambda>_. [1, 0, 0, 1]" 0]
  by simp

text \<open>
  C10. \<^verbatim>\<open>even_parity\<close> returns, for every list of bits, the empty one included, the sum
  of the list mod 2: 1 exactly when the number of ones is odd, and 0 on the empty list.
\<close>

theorem even_parity_spec:
  assumes "set (h a) \<subseteq> {0, 1}"
  shows "fst (even_parity a h) = Inr (sum_list (h a) mod 2) \<and>
         fst (even_parity a h) = Inr (if odd (count_list (h a) 1) then 1 else 0) \<and>
         (h a = [] \<longrightarrow> fst (even_parity a h) = Inr 0)"
  using assms by (auto simp add: even_parity_value sum_list_bits) presburger+

theorem even_parity_spec_witness:
  "set [1, 1, 1, 0 :: int] \<subseteq> {0, 1} \<and> fst (even_parity 0 (\<lambda>_. [1, 1, 1, 0])) = Inr 1 \<and>
   fst (even_parity 0 (\<lambda>_. [])) = Inr 0"
  using even_parity_spec [of "\<lambda>_. [1, 1, 1, 0]" 0] even_parity_spec [of "\<lambda>_. []" 0]
  by simp

section \<open>The cycle decomposition engine covers the state space\<close>

lemma length_state_of: "length (state_of n v) = n"
  by (induction n arbitrary: v) simp_all

lemma set_state_of: "set (state_of n v) \<subseteq> {0, 1}"
proof (induction n arbitrary: v)
  case 0
  then show ?case by simp
next
  case (Suc n)
  have "int (v mod 2) = 0 \<or> int (v mod 2) = 1" by presburger
  with Suc [of "v div 2"] show ?case by auto
qed

lemma state_value_snoc: "state_value (s @ [b]) = 2 * state_value s + nat b"
  by (simp add: state_value_def)

lemma state_value_bound: "set s \<subseteq> {0, 1} \<Longrightarrow> state_value s < 2 ^ length s"
proof (induction s rule: rev_induct)
  case Nil
  then show ?case by (simp add: state_value_def)
next
  case (snoc b s)
  then have "state_value s < 2 ^ length s" and "nat b \<le> 1" by auto
  then show ?case by (simp add: state_value_snoc)
qed

lemma state_value_state_of: "v < 2 ^ n \<Longrightarrow> state_value (state_of n v) = v"
proof (induction n arbitrary: v)
  case 0
  then show ?case by (simp add: state_value_def)
next
  case (Suc n)
  then have "v div 2 < 2 ^ n" by simp
  then have "state_value (state_of n (v div 2)) = v div 2" by (rule Suc.IH)
  then show ?case by (simp add: state_value_snoc)
qed

lemma state_of_inj: "inj_on (state_of n) {v. v < 2 ^ n}"
  by (rule inj_on_inverseI [of _ state_value]) (simp add: state_value_state_of)

lemma step_valid:
  assumes "valid_feedback n feedback" "0 < n"
  shows "\<exists>s'. step n feedback (state_of n v) = Inr s' \<and> state_value s' < 2 ^ n"
proof -
  let ?s = "state_of n v"
  have len: "length ?s = n" by (rule length_state_of)
  have bits: "set ?s \<subseteq> {0, 1}" by (rule set_state_of)
  from assms(1) len bits have fb: "feedback ?s = Some 0 \<or> feedback ?s = Some 1"
    unfolding valid_feedback_def by blast
  then obtain b where b: "feedback ?s = Some b" "b = 0 \<or> b = 1" by blast
  have ne: "?s \<noteq> []" using len assms(2) by auto
  have "set (tl ?s) \<subseteq> {0, 1}" using bits list.set_sel(2) [OF ne] by blast
  then have "set (tl ?s @ [b]) \<subseteq> {0, 1}" using b(2) by auto
  then have "state_value (tl ?s @ [b]) < 2 ^ length (tl ?s @ [b])" by (rule state_value_bound)
  moreover have "length (tl ?s @ [b]) = n" using len assms(2) by simp
  ultimately have "state_value (tl ?s @ [b]) < 2 ^ n" by (simp only:)
  moreover have "step n feedback ?s = Inr (tl ?s @ [b])" using b len by (auto simp add: step_def)
  ultimately show ?thesis by blast
qed

declare walk.simps [simp del]

lemma walk_result:
  assumes "valid_feedback n feedback" "0 < n"
  shows "length tab = 2 ^ n \<Longrightarrow> cur < 2 ^ n \<Longrightarrow> distinct path \<Longrightarrow>
     \<forall>v\<in>set path. v < 2 ^ n \<and> tab ! v \<noteq> Unvisited \<Longrightarrow>
     \<exists>tab' path' e. walk n feedback tab path cur = Inr (tab', path', e) \<and>
        length tab' = 2 ^ n \<and> distinct path' \<and> set path \<subseteq> set path' \<and>
        (\<forall>v\<in>set path'. v < 2 ^ n \<and> (v \<in> set path \<or> tab ! v = Unvisited)) \<and>
        (\<forall>v<2 ^ n. v \<notin> set path' \<longrightarrow> tab' ! v = tab ! v) \<and>
        (tab ! cur = Unvisited \<longrightarrow> cur \<in> set path')"
  using assms
proof (induction n feedback tab path cur rule: walk.induct)
  case (1 n feedback tab path cur)
  note len = \<open>length tab = 2 ^ n\<close> and cur = \<open>cur < 2 ^ n\<close> and dist = \<open>distinct path\<close>
    and old = \<open>\<forall>v\<in>set path. v < 2 ^ n \<and> tab ! v \<noteq> Unvisited\<close>
    and valid = \<open>valid_feedback n feedback\<close> and pos = \<open>0 < n\<close>
  show ?case
  proof (cases "tab ! cur = Unvisited")
    case False
    then have "\<exists>e. walk n feedback tab path cur = Inr (tab, path, e)"
      using len cur by (cases "tab ! cur") (simp_all add: walk.simps [of n feedback tab path cur])
    then show ?thesis using len dist old False by auto
  next
    case True
    from step_valid [OF valid pos, of cur] obtain s' where
      s': "step n feedback (state_of n cur) = Inr s'" and small: "state_value s' < 2 ^ n"
      by blast
    let ?tab = "tab[cur := InProgress (length path)]"
    let ?path = "path @ [cur]"
    have unfold: "walk n feedback tab path cur = walk n feedback ?tab ?path (state_value s')"
      using len cur True s' by (simp add: walk.simps [of n feedback tab path cur])
    have fresh: "cur \<notin> set path" using old True by blast
    have len2: "length ?tab = 2 ^ n" using len by simp
    have dist2: "distinct ?path" using dist fresh by simp
    have old2: "\<forall>v\<in>set ?path. v < 2 ^ n \<and> ?tab ! v \<noteq> Unvisited"
      using old cur len by (auto simp add: nth_list_update)
    have notle: "\<not> length tab \<le> cur" using len cur by simp
    from "1.IH" [OF notle True s' len2 small dist2 old2 valid pos]
    obtain tab' path' e where
      res: "walk n feedback ?tab ?path (state_value s') = Inr (tab', path', e)"
      and len': "length tab' = 2 ^ n" and dist': "distinct path'"
      and sub: "set ?path \<subseteq> set path'"
      and new: "\<forall>v\<in>set path'. v < 2 ^ n \<and> (v \<in> set ?path \<or> ?tab ! v = Unvisited)"
      and same: "\<forall>v<2 ^ n. v \<notin> set path' \<longrightarrow> tab' ! v = ?tab ! v"
      by blast
    have new': "\<forall>v\<in>set path'. v < 2 ^ n \<and> (v \<in> set path \<or> tab ! v = Unvisited)"
    proof
      fix v assume v: "v \<in> set path'"
      with new have vn: "v < 2 ^ n" and alt: "v \<in> set ?path \<or> ?tab ! v = Unvisited" by blast+
      show "v < 2 ^ n \<and> (v \<in> set path \<or> tab ! v = Unvisited)"
      proof (cases "v = cur")
        case True
        with \<open>tab ! cur = Unvisited\<close> vn show ?thesis by simp
      next
        case False
        with alt vn show ?thesis by auto
      qed
    qed
    have same': "\<forall>v<2 ^ n. v \<notin> set path' \<longrightarrow> tab' ! v = tab ! v"
    proof (intro allI impI)
      fix v assume "v < 2 ^ n" "v \<notin> set path'"
      with sub have "v \<noteq> cur" by auto
      with same \<open>v < 2 ^ n\<close> \<open>v \<notin> set path'\<close> show "tab' ! v = tab ! v" by simp
    qed
    from sub have sub': "set path \<subseteq> set path'" and inside: "tab ! cur = Unvisited \<longrightarrow> cur \<in> set path'"
      by simp_all
    have "walk n feedback tab path cur = Inr (tab', path', e)" using unfold res by simp
    then show ?thesis
      using len' dist' sub' new' same' inside
      by (intro exI [of _ tab'] exI [of _ path'] exI [of _ e] conjI) assumption+
  qed
qed

lemma length_mark: "length (mark vs c t) = length t"
  unfolding mark_def by (induction vs arbitrary: t) simp_all

lemma nth_mark: "v < length t \<Longrightarrow> mark vs c t ! v = (if v \<in> set vs then c else t ! v)"
  unfolding mark_def
proof (induction vs arbitrary: t)
  case Nil
  then show ?case by simp
next
  case (Cons x vs)
  have "fold (\<lambda>v t. t[v := c]) vs (t[x := c]) ! v = (if v \<in> set vs then c else t[x := c] ! v)"
    using Cons.prems by (intro Cons.IH) simp
  moreover have "t[x := c] ! v = (if v = x then c else t ! v)"
    using Cons.prems by (simp add: nth_list_update)
  ultimately show ?case by auto
qed

lemma set_canonical: "set (canonical cycle) = set cycle"
  by (simp add: canonical_def Let_def)

lemma distinct_canonical: "distinct (canonical cycle) = distinct cycle"
  by (simp add: canonical_def Let_def)

lemma length_canonical: "length (canonical cycle) = length cycle"
  by (simp add: canonical_def Let_def)

lemma finite_transients: "finite (transients t)"
  by (rule finite_subset [of _ "{..<length t}"]) (auto simp add: transients_def)

lemma finite_members: "finite (members t)"
  by (rule finite_subset [of _ "{..<length t}"]) (auto simp add: members_def)

text \<open>A table that differs from \<open>t\<close> on two disjoint sets of unvisited states only.\<close>

lemma members_marked:
  assumes "length t2 = length t"
    and "\<forall>v<length t. t2 ! v = (if v \<in> A then Transient c else if v \<in> B then CycleMember c else t ! v)"
    and "\<forall>v\<in>A \<union> B. v < length t \<and> t ! v = Unvisited" and "A \<inter> B = {}"
  shows "members t2 = members t \<union> B" and "transients t2 = transients t \<union> A"
  using assms by (auto simp add: members_def transients_def split: if_splits)

lemma marked_table_ok:
  assumes ok: "engine_ok n eng"
    and len2: "length t2 = 2 ^ n"
    and pt: "\<forall>v<2 ^ n. t2 ! v =
        (if v \<in> set fs then Transient c else if v \<in> set cy then CycleMember c
         else table eng ! v)"
    and dist: "distinct (fs @ cy)"
    and new: "\<forall>v\<in>set (fs @ cy). v < 2 ^ n \<and> table eng ! v = Unvisited"
    and fnd: "found' = found eng @ [canonical cy] \<or> (cy = [] \<and> found' = found eng)"
  shows "engine_ok n \<lparr>table = t2, found = found', transient_total = transient_total eng + length fs\<rparr>"
proof -
  let ?t = "table eng"
  from ok have len: "length ?t = 2 ^ n"
    and noprog: "\<forall>v<2 ^ n. \<forall>i. ?t ! v \<noteq> InProgress i"
    and dfound: "distinct (concat (found eng))"
    and sfound: "set (concat (found eng)) = members ?t"
    and total: "transient_total eng = card (transients ?t)"
    by (simp_all add: engine_ok_def)
  have disj: "set fs \<inter> set cy = {}" using dist by simp
  have pt': "\<forall>v<length ?t. t2 ! v =
        (if v \<in> set fs then Transient c else if v \<in> set cy then CycleMember c else ?t ! v)"
    using pt len by simp
  have new': "\<forall>v\<in>set fs \<union> set cy. v < length ?t \<and> ?t ! v = Unvisited"
    using new len by simp
  have len2': "length t2 = length ?t" using len len2 by simp
  have mem: "members t2 = members ?t \<union> set cy" and tra: "transients t2 = transients ?t \<union> set fs"
    using members_marked [OF len2' pt' new' disj] by simp_all
  have cy_fresh: "members ?t \<inter> set cy = {}"
    using new by (auto simp add: members_def)
  have fs_fresh: "transients ?t \<inter> set fs = {}"
    using new by (auto simp add: transients_def)
  have noprog2: "\<forall>v<2 ^ n. \<forall>i. t2 ! v \<noteq> InProgress i"
    using pt noprog by simp
  have dfound': "distinct (concat found')"
  proof -
    have "set (concat (found eng)) \<inter> set cy = {}" by (simp only: sfound cy_fresh)
    moreover have "distinct cy" using dist by simp
    ultimately have "distinct (concat (found eng @ [canonical cy]))"
      using dfound by (simp add: distinct_canonical set_canonical)
    with fnd dfound show ?thesis by (elim disjE) simp_all
  qed
  have sfound': "set (concat found') = members t2"
  proof -
    from fnd have "set (concat found') = set (concat (found eng)) \<union> set cy"
      by (elim disjE) (simp_all add: set_canonical)
    then show ?thesis by (simp only: sfound mem)
  qed
  have "card (transients ?t \<union> set fs) = card (transients ?t) + card (set fs)"
    using fs_fresh by (intro card_Un_disjoint finite_transients) simp_all
  moreover have "card (set fs) = length fs" using dist by (simp add: distinct_card)
  ultimately have total': "transient_total eng + length fs = card (transients t2)"
    using total tra by simp
  show ?thesis
    using len2 noprog2 dfound' sfound' total' by (simp add: engine_ok_def)
qed

lemma finish_walk_table:
  assumes len': "length t' = 2 ^ n"
    and same: "\<forall>v<2 ^ n. v \<notin> set path \<longrightarrow> t' ! v = table eng ! v"
  shows "\<exists>fs cy c found'.
      finish_walk eng (t', path, e) =
        \<lparr>table = table (finish_walk eng (t', path, e)), found = found',
         transient_total = transient_total eng + length fs\<rparr> \<and>
      fs @ cy = path \<and>
      length (table (finish_walk eng (t', path, e))) = 2 ^ n \<and>
      (\<forall>v<2 ^ n. table (finish_walk eng (t', path, e)) ! v =
        (if v \<in> set fs then Transient c else if v \<in> set cy then CycleMember c
         else table eng ! v)) \<and>
      (found' = found eng @ [canonical cy] \<or> (cy = [] \<and> found' = found eng))"
proof (cases e)
  case (NewCycle i)
  let ?fs = "take i path" and ?cy = "drop i path" and ?c = "length (found eng)"
  let ?t2 = "mark ?fs (Transient ?c) (mark ?cy (CycleMember ?c) t')"
  have fw: "finish_walk eng (t', path, e) =
      \<lparr>table = ?t2, found = found eng @ [canonical ?cy],
       transient_total = transient_total eng + length ?fs\<rparr>"
    using NewCycle by (simp add: finish_walk_def Let_def)
  have app: "?fs @ ?cy = path" by simp
  have sets: "set path = set ?fs \<union> set ?cy" by (metis app set_append)
  have pt: "\<forall>v<2 ^ n. ?t2 ! v =
      (if v \<in> set ?fs then Transient ?c else if v \<in> set ?cy then CycleMember ?c
       else table eng ! v)"
  proof (intro allI impI)
    fix v :: nat
    assume v: "v < 2 ^ n"
    then have "?t2 ! v = (if v \<in> set ?fs then Transient ?c
        else if v \<in> set ?cy then CycleMember ?c else t' ! v)"
      using len' by (simp add: nth_mark length_mark)
    moreover have "v \<notin> set ?fs \<Longrightarrow> v \<notin> set ?cy \<Longrightarrow> t' ! v = table eng ! v"
      using same v sets by blast
    ultimately show "?t2 ! v =
      (if v \<in> set ?fs then Transient ?c else if v \<in> set ?cy then CycleMember ?c
       else table eng ! v)" by simp
  qed
  have len2: "length ?t2 = 2 ^ n" using len' by (simp add: length_mark)
  show ?thesis
    apply (rule exI [of _ ?fs], rule exI [of _ ?cy], rule exI [of _ ?c])
    apply (rule exI [of _ "found eng @ [canonical ?cy]"])
    using app pt len2 by (simp add: fw)
next
  case (JoinsKnown c)
  let ?t2 = "mark path (Transient c) t'"
  have fw: "finish_walk eng (t', path, e) =
      \<lparr>table = ?t2, found = found eng, transient_total = transient_total eng + length path\<rparr>"
    using JoinsKnown by (simp add: finish_walk_def)
  have pt: "\<forall>v<2 ^ n. ?t2 ! v =
      (if v \<in> set path then Transient c else if v \<in> set [] then CycleMember c
       else table eng ! v)"
    using len' same by (simp add: nth_mark)
  have len2: "length ?t2 = 2 ^ n" using len' by (simp add: length_mark)
  show ?thesis
    apply (rule exI [of _ path], rule exI [of _ "[]"], rule exI [of _ c])
    apply (rule exI [of _ "found eng"])
    using pt len2 by (simp add: fw)
qed

lemma finish_walk_ok:
  assumes ok: "engine_ok n eng"
    and len': "length t' = 2 ^ n" and dist: "distinct path"
    and new: "\<forall>v\<in>set path. v < 2 ^ n \<and> table eng ! v = Unvisited"
    and same: "\<forall>v<2 ^ n. v \<notin> set path \<longrightarrow> t' ! v = table eng ! v"
  shows "engine_ok n (finish_walk eng (t', path, e)) \<and>
    (\<forall>v<2 ^ n. is_done (table eng ! v) \<longrightarrow> is_done (table (finish_walk eng (t', path, e)) ! v)) \<and>
    (\<forall>v\<in>set path. is_done (table (finish_walk eng (t', path, e)) ! v))"
proof -
  let ?eng = "finish_walk eng (t', path, e)"
  from finish_walk_table [OF len' same, of e] obtain fs cy c found' where
    shape: "?eng = \<lparr>table = table ?eng, found = found',
        transient_total = transient_total eng + length fs\<rparr>"
    and app: "fs @ cy = path"
    and len2: "length (table ?eng) = 2 ^ n"
    and pt: "\<forall>v<2 ^ n. table ?eng ! v =
        (if v \<in> set fs then Transient c else if v \<in> set cy then CycleMember c
         else table eng ! v)"
    and fnd: "found' = found eng @ [canonical cy] \<or> (cy = [] \<and> found' = found eng)"
    by blast
  have dist2: "distinct (fs @ cy)" using dist app by simp
  have new2: "\<forall>v\<in>set (fs @ cy). v < 2 ^ n \<and> table eng ! v = Unvisited" using new app by simp
  have "engine_ok n \<lparr>table = table ?eng, found = found',
        transient_total = transient_total eng + length fs\<rparr>"
    using ok len2 pt dist2 new2 fnd by (rule marked_table_ok)
  then have ok': "engine_ok n ?eng" using shape by simp
  have keep: "\<forall>v<2 ^ n. is_done (table eng ! v) \<longrightarrow> is_done (table ?eng ! v)"
  proof (intro allI impI)
    fix v :: nat
    assume v: "v < 2 ^ n" and d: "is_done (table eng ! v)"
    then have "v \<notin> set (fs @ cy)" using new2 by auto
    then have "table ?eng ! v = table eng ! v" using pt v by simp
    with d show "is_done (table ?eng ! v)" by simp
  qed
  have fresh: "\<forall>v\<in>set path. is_done (table ?eng ! v)"
  proof
    fix v assume "v \<in> set path"
    then have "v < 2 ^ n" and "v \<in> set fs \<or> v \<in> set cy" using new app by auto
    then show "is_done (table ?eng ! v)" using pt by auto
  qed
  from ok' keep fresh show ?thesis by blast
qed

lemma not_done_cases: "\<not> is_done c \<Longrightarrow> c = Unvisited \<or> (\<exists>i. c = InProgress i)"
  by (cases c) simp_all

lemma sweep_ok:
  assumes valid: "valid_feedback n feedback" and pos: "0 < n"
  shows "engine_ok n eng \<Longrightarrow> \<forall>v\<in>set starts. v < 2 ^ n \<Longrightarrow>
     \<exists>eng'. sweep n feedback starts eng = Inr eng' \<and> engine_ok n eng' \<and>
       (\<forall>v<2 ^ n. is_done (table eng ! v) \<longrightarrow> is_done (table eng' ! v)) \<and>
       (\<forall>v\<in>set starts. is_done (table eng' ! v))"
proof (induction starts arbitrary: eng)
  case Nil
  then show ?case by simp
next
  case (Cons start rest)
  from Cons.prems have ok: "engine_ok n eng" and start: "start < 2 ^ n"
    and rest: "\<forall>v\<in>set rest. v < 2 ^ n" by simp_all
  from ok have len: "length (table eng) = 2 ^ n"
    and noprog: "\<forall>v<2 ^ n. \<forall>i. table eng ! v \<noteq> InProgress i"
    by (simp_all add: engine_ok_def)
  show ?case
  proof (cases "is_done (table eng ! start)")
    case True
    from Cons.IH [OF ok rest] obtain eng' where
      sw: "sweep n feedback rest eng = Inr eng'" and ok': "engine_ok n eng'"
      and keep: "\<forall>v<2 ^ n. is_done (table eng ! v) \<longrightarrow> is_done (table eng' ! v)"
      and fin: "\<forall>v\<in>set rest. is_done (table eng' ! v)" by blast
    have "sweep n feedback (start # rest) eng = Inr eng'"
      using sw True start len by simp
    moreover have "\<forall>v\<in>set (start # rest). is_done (table eng' ! v)"
      using fin keep True start by simp
    ultimately show ?thesis using ok' keep by blast
  next
    case False
    then have unv: "table eng ! start = Unvisited"
      using not_done_cases [of "table eng ! start"] noprog start by blast
    have "\<forall>v\<in>set []. v < 2 ^ n \<and> table eng ! v \<noteq> Unvisited" by simp
    with walk_result [OF valid pos len start, of "[]"] obtain t' path e where
      w: "walk n feedback (table eng) [] start = Inr (t', path, e)"
      and len': "length t' = 2 ^ n" and dist: "distinct path"
      and new0: "\<forall>v\<in>set path. v < 2 ^ n \<and> (v \<in> set [] \<or> table eng ! v = Unvisited)"
      and same: "\<forall>v<2 ^ n. v \<notin> set path \<longrightarrow> t' ! v = table eng ! v"
      and inside: "table eng ! start = Unvisited \<longrightarrow> start \<in> set path"
      by (auto simp del: set_simps)
    from new0 have new: "\<forall>v\<in>set path. v < 2 ^ n \<and> table eng ! v = Unvisited" by simp
    let ?eng = "finish_walk eng (t', path, e)"
    from finish_walk_ok [OF ok len' dist new same, of e] have
      ok2: "engine_ok n ?eng"
      and keep2: "\<forall>v<2 ^ n. is_done (table eng ! v) \<longrightarrow> is_done (table ?eng ! v)"
      and fresh: "\<forall>v\<in>set path. is_done (table ?eng ! v)" by blast+
    from Cons.IH [OF ok2 rest] obtain eng' where
      sw: "sweep n feedback rest ?eng = Inr eng'" and ok': "engine_ok n eng'"
      and keep: "\<forall>v<2 ^ n. is_done (table ?eng ! v) \<longrightarrow> is_done (table eng' ! v)"
      and fin: "\<forall>v\<in>set rest. is_done (table eng' ! v)" by blast
    have "sweep n feedback (start # rest) eng = Inr eng'"
      using sw False start len w by simp
    moreover have "is_done (table eng' ! start)"
      using inside unv fresh keep start by blast
    moreover have "\<forall>v<2 ^ n. is_done (table eng ! v) \<longrightarrow> is_done (table eng' ! v)"
      using keep keep2 by blast
    ultimately show ?thesis using ok' fin by auto
  qed
qed

lemma engine_ok_initial:
  "engine_ok n \<lparr>table = replicate (2 ^ n) Unvisited, found = [], transient_total = 0\<rparr>"
  by (simp add: engine_ok_def members_def transients_def)

lemma all_done_count:
  assumes ok: "engine_ok n eng" and fin: "\<forall>v<2 ^ n. is_done (table eng ! v)"
  shows "length (concat (found eng)) + transient_total eng = 2 ^ n"
proof -
  let ?t = "table eng"
  from ok have len: "length ?t = 2 ^ n"
    and dfound: "distinct (concat (found eng))"
    and sfound: "set (concat (found eng)) = members ?t"
    and total: "transient_total eng = card (transients ?t)"
    by (simp_all add: engine_ok_def)
  have every: "members ?t \<union> transients ?t = {..<2 ^ n}"
  proof
    show "members ?t \<union> transients ?t \<subseteq> {..<2 ^ n}"
      using len by (auto simp add: members_def transients_def)
    show "{..<2 ^ n} \<subseteq> members ?t \<union> transients ?t"
    proof
      fix v :: nat
      assume "v \<in> {..<2 ^ n}"
      then have v: "v < 2 ^ n" by simp
      with fin have "is_done (?t ! v)" by simp
      then have "(\<exists>c. ?t ! v = CycleMember c) \<or> (\<exists>c. ?t ! v = Transient c)"
        by (cases "?t ! v") simp_all
      with v len show "v \<in> members ?t \<union> transients ?t"
        by (auto simp add: members_def transients_def)
    qed
  qed
  have apart: "members ?t \<inter> transients ?t = {}"
    by (auto simp add: members_def transients_def)
  have "card (members ?t \<union> transients ?t) = card (members ?t) + card (transients ?t)"
    using apart by (intro card_Un_disjoint finite_members finite_transients)
  then have "card (members ?t) + card (transients ?t) = 2 ^ n" by (simp add: every)
  moreover have "length (concat (found eng)) = card (members ?t)"
    using dfound sfound by (metis distinct_card)
  ultimately show ?thesis using total by simp
qed

text \<open>
  The model on the specification's scenarios: with the exclusive or of all three bits at
  length 3 the all-zero state is a cycle of length 1 and 8 states are covered; with
  \<open>x[0] ^ x[3]\<close> at length 4 there is the all-zero cycle and one cycle of length 15; a
  length of 40 against a ceiling of 26 is rejected.
\<close>

lemma scenario_a:
  "map_sum id (\<lambda>d. (hd (cycles d), sum_list (map length (cycles d)) + transient_count d))
     (decompose 26 3 (\<lambda>s. Some ((s ! 0 XOR s ! 1) XOR s ! 2))) = Inr ([[0, 0, 0]], 8)"
  by code_simp

lemma scenario_b:
  "map_sum id (\<lambda>d. (map length (cycles d), hd (cycles d), transient_count d))
     (decompose 26 4 (\<lambda>s. Some (s ! 0 XOR s ! 3))) = Inr ([1, 15], [[0, 0, 0, 0]], 0)"
  by code_simp

lemma scenario_d: "decompose 26 40 feedback = Inl UnsupportedRegisterLength"
  by (simp add: decompose_def)

lemma and_feedback_valid: "valid_feedback 3 (\<lambda>s. Some (s ! 1 * s ! 2))"
  unfolding valid_feedback_def
proof (intro allI impI)
  fix s :: "int list"
  assume s: "length s = 3 \<and> set s \<subseteq> {0, 1}"
  then have "s ! 1 \<in> set s" "s ! 2 \<in> set s" by simp_all
  with s have "s ! 1 \<in> {0, 1}" "s ! 2 \<in> {0, 1}" by blast+
  then show "Some (s ! 1 * s ! 2) = Some 0 \<or> Some (s ! 1 * s ! 2) = Some 1" by auto
qed

text \<open>
  C1. For every valid pair of a register length and a feedback function (a positive
  length within the ceiling, a feedback function that returns a bit on every state of that
  length) the decomposition succeeds, the lengths of the reported cycles and the count of
  transient states add up to \<open>2 ^ n\<close>, and no state appears twice among the cycles.
\<close>

theorem decompose_covers:
  assumes "0 < n" and "n \<le> max_length" and "valid_feedback n feedback"
  shows "\<exists>d. decompose max_length n feedback = Inr d \<and>
           sum_list (map length (cycles d)) + transient_count d = 2 ^ n \<and>
           distinct (concat (cycles d))"
proof -
  let ?init = "\<lparr>table = replicate (2 ^ n) Unvisited, found = [], transient_total = 0\<rparr>"
  have "\<forall>v\<in>set [0..<2 ^ n]. v < 2 ^ n" by simp
  with sweep_ok [OF assms(3) assms(1) engine_ok_initial, of "[0..<2 ^ n]"] obtain eng where
    sw: "sweep n feedback [0..<2 ^ n] ?init = Inr eng" and ok: "engine_ok n eng"
    and fin: "\<forall>v\<in>set [0..<2 ^ n]. is_done (table eng ! v)" by blast
  from fin have all: "\<forall>v<2 ^ n. is_done (table eng ! v)" by simp
  let ?d = "\<lparr>cycles = map (map (state_of n)) (found eng),
             transient_count = transient_total eng, attribution = table eng\<rparr>"
  have dec: "decompose max_length n feedback = Inr ?d"
    using assms(2) sw by (simp add: decompose_def)
  have "sum_list (map length (found eng)) + transient_total eng = 2 ^ n"
    using all_done_count [OF ok all] by (simp add: length_concat)
  moreover have "length \<circ> map (state_of n) = length" by (rule ext) simp
  ultimately have count: "sum_list (map length (cycles ?d)) + transient_count ?d = 2 ^ n"
    by simp
  from ok have dfound: "distinct (concat (found eng))"
    and sfound: "set (concat (found eng)) = members (table eng)"
    and len: "length (table eng) = 2 ^ n"
    by (simp_all add: engine_ok_def)
  have "set (concat (found eng)) \<subseteq> {v. v < 2 ^ n}"
    unfolding sfound using len by (auto simp add: members_def)
  then have "inj_on (state_of n) (set (concat (found eng)))"
    using state_of_inj by (rule inj_on_subset [rotated])
  then have "distinct (map (state_of n) (concat (found eng)))"
    using dfound by (simp add: distinct_map)
  then have dist: "distinct (concat (cycles ?d))" by (simp add: map_concat)
  from dec count dist show ?thesis by blast
qed

theorem decompose_covers_witness:
  "0 < (3::nat) \<and> (3::nat) \<le> 26 \<and> valid_feedback 3 (\<lambda>s. Some (s ! 1 * s ! 2)) \<and>
   (\<exists>d. decompose 26 3 (\<lambda>s. Some (s ! 1 * s ! 2)) = Inr d \<and>
      cycles d = [[[0, 0, 0]], [[1, 1, 1]]] \<and> transient_count d = 6 \<and>
      sum_list (map length (cycles d)) + transient_count d = 2 ^ 3 \<and>
      distinct (concat (cycles d)))"
proof -
  have run: "decompose 26 3 (\<lambda>s. Some (s ! 1 * s ! 2)) =
      Inr \<lparr>cycles = [[[0, 0, 0]], [[1, 1, 1]]], transient_count = 6,
           attribution = [CycleMember 0, Transient 0, Transient 0, Transient 1,
             Transient 0, Transient 0, Transient 0, CycleMember 1]\<rparr>"
    by code_simp
  have "0 < (3::nat)" and "(3::nat) \<le> 26" by simp_all
  from decompose_covers [OF this and_feedback_valid] run and_feedback_valid
  show ?thesis by simp
qed

end
